theory Spec2Isabelle
  imports Main
begin

section \<open>Python values, exceptions and list indexing\<close>

text \<open>
  The program is \<^verbatim>\<open>segment_tree.py\<close>: a maximum segment tree over a list of integers,
  with the classes \<^verbatim>\<open>TreeNode\<close> and \<^verbatim>\<open>SegmentTree\<close>. Python integers are
  unbounded, so they are \<^typ>\<open>int\<close>; \<^verbatim>\<open>//\<close> is floor division, which is \<open>div\<close> on
  \<^typ>\<open>int\<close>. The source raises no exception of its own; the exceptions below are the ones
  the interpreter raises in the code that is modelled.
\<close>

datatype error = IndexError | AttributeError | RecursionError

text \<open>
  \<^verbatim>\<open>xs[i]\<close> on a Python list (and on a one-dimensional numpy array): an index in
  \<open>[0, len)\<close> reads that element, an index in \<open>[-len, 0)\<close> counts from the end, any other
  index raises \<^verbatim>\<open>IndexError\<close>.
\<close>

definition getitem :: "'a list \<Rightarrow> int \<Rightarrow> error + 'a" where
  "getitem xs i =
     (if 0 \<le> i \<and> i < int (length xs) then Inr (xs ! nat i)
      else if i < 0 \<and> - int (length xs) \<le> i then Inr (xs ! nat (int (length xs) + i))
      else Inl IndexError)"

section \<open>TreeNode\<close>

text \<open>
  The fields of \<^verbatim>\<open>TreeNode.__init__\<close>. \<^verbatim>\<open>end\<close> and \<^verbatim>\<open>value\<close> are reserved words of
  the theory language, so these two fields carry a prime. \<^verbatim>\<open>left\<close> and \<^verbatim>\<open>right\<close> are
  \<^verbatim>\<open>None\<close> or a node. \<^verbatim>\<open>inorder_pos\<close> is the attribute that \<^verbatim>\<open>inorder\<close> creates; it is
  \<open>None\<close> as long as the attribute does not exist.
\<close>

datatype TreeNode =
  TreeNode (start: int) (end': int) (label: string) (value': int)
    (is_selected: bool) (branch: bool)
    (left: "TreeNode option") (right: "TreeNode option") (inorder_pos: "int option")

text \<open>
  \<^verbatim>\<open>TreeNode.update(idx, value)\<close> mutates the tree in place. The model returns the tree
  after the call together with the exception that ended the call, if any: a leaf
  (\<^verbatim>\<open>start == end\<close>) takes the new value; any other node descends into \<^verbatim>\<open>left\<close> when
  \<^verbatim>\<open>idx <= mid\<close> and into \<^verbatim>\<open>right\<close> otherwise, then takes the larger of its children's
  values. Calling a method or reading a field of a child that is \<^verbatim>\<open>None\<close> raises
  \<^verbatim>\<open>AttributeError\<close>.
\<close>

fun update :: "TreeNode \<Rightarrow> int \<Rightarrow> int \<Rightarrow> TreeNode \<times> error option" where
  "update (TreeNode s e lab v sel br l r pos) idx new =
     (if s = e then (TreeNode s e lab new sel br l r pos, None)
      else
        let mid = (s + e) div 2;
            (l1, r1, raised) =
              (if idx \<le> mid then
                 (case l of
                    None \<Rightarrow> (l, r, Some AttributeError)
                  | Some lt \<Rightarrow> (case update lt idx new of (lt1, x) \<Rightarrow> (Some lt1, r, x)))
               else
                 (case r of
                    None \<Rightarrow> (l, r, Some AttributeError)
                  | Some rt \<Rightarrow> (case update rt idx new of (rt1, x) \<Rightarrow> (l, Some rt1, x))))
        in
          (case raised of
             Some x \<Rightarrow> (TreeNode s e lab v sel br l1 r1 pos, Some x)
           | None \<Rightarrow>
               (case l1 of
                  None \<Rightarrow> (TreeNode s e lab v sel br l1 r1 pos, Some AttributeError)
                | Some lt \<Rightarrow>
                    (case r1 of
                       None \<Rightarrow> (TreeNode s e lab v sel br l1 r1 pos, Some AttributeError)
                     | Some rt \<Rightarrow>
                         (if value' lt > value' rt
                          then (TreeNode s e lab (value' lt) sel br l1 r1 pos, None)
                          else (TreeNode s e lab (value' rt) sel br l1 r1 pos, None))))))"

text \<open>
  \<^verbatim>\<open>TreeNode.query(start, end)\<close> assigns no field, so the model returns the result only:
  the value of a node whose range is exactly the queried one, otherwise the result of the
  child that holds the range, or the maximum of the two parts of a range that straddles
  \<^verbatim>\<open>mid\<close> (the left part is evaluated first).
\<close>

fun query :: "TreeNode \<Rightarrow> int \<Rightarrow> int \<Rightarrow> error + int" where
  "query (TreeNode s e lab v sel br l r pos) qs qe =
     (if s = qs \<and> e = qe then Inr v
      else
        let mid = (s + e) div 2 in
          if qe \<le> mid then
            (case l of None \<Rightarrow> Inl AttributeError | Some lt \<Rightarrow> query lt qs qe)
          else if qs > mid then
            (case r of None \<Rightarrow> Inl AttributeError | Some rt \<Rightarrow> query rt qs qe)
          else
            (case l of
               None \<Rightarrow> Inl AttributeError
             | Some lt \<Rightarrow>
                 (case query lt qs mid of
                    Inl x \<Rightarrow> Inl x
                  | Inr left_max \<Rightarrow>
                      (case r of
                         None \<Rightarrow> Inl AttributeError
                       | Some rt \<Rightarrow>
                           (case query rt (mid + 1) qe of
                              Inl x \<Rightarrow> Inl x
                            | Inr right_max \<Rightarrow> Inr (max left_max right_max))))))"

text \<open>
  \<^verbatim>\<open>TreeNode.inorder(num, key_list)\<close>: \<^verbatim>\<open>num\<close> is a one-element list used as a shared
  counter and \<^verbatim>\<open>key_list\<close> is appended to; both are threaded through the model, which
  returns the node with its new \<^verbatim>\<open>inorder_pos\<close> fields, the counter and the key list.
  \<^verbatim>\<open>if self.left\<close> tests the child against \<^verbatim>\<open>None\<close> (the class defines neither
  \<^verbatim>\<open>__bool__\<close> nor \<^verbatim>\<open>__len__\<close>).
\<close>

fun inorder :: "TreeNode \<Rightarrow> int \<Rightarrow> string list \<Rightarrow> TreeNode \<times> int \<times> string list" where
  "inorder (TreeNode s e lab v sel br l r pos) num key_list =
     (let (l1, num1, keys1) =
            (case l of
               None \<Rightarrow> (None, num, key_list)
             | Some lt \<Rightarrow> (case inorder lt num key_list of (lt1, n, ks) \<Rightarrow> (Some lt1, n, ks)));
          pos1 = Some num1;
          keys2 = keys1 @ [lab];
          num2 = num1 + 1;
          (r1, num3, keys3) =
            (case r of
               None \<Rightarrow> (None, num2, keys2)
             | Some rt \<Rightarrow> (case inorder rt num2 keys2 of (rt1, n, ks) \<Rightarrow> (Some rt1, n, ks)))
      in (TreeNode s e lab v sel br l1 r1 pos1, num3, keys3))"

section \<open>SegmentTree\<close>

record SegmentTree =
  values' :: "int list"
  labels :: "string list"
  selected_idx :: int
  branch_idx :: int
  root :: TreeNode

text \<open>
  \<^verbatim>\<open>SegmentTree.build_tree(start, end)\<close>. The recursion has no base case when
  \<^verbatim>\<open>start > end\<close>, so the model carries the number of nested calls the interpreter
  still allows (\<open>depth\<close>): when it is used up, Python raises \<^verbatim>\<open>RecursionError\<close>. The
  four fields of \<^verbatim>\<open>self\<close> that the method reads are its first four arguments. A leaf
  reads \<^verbatim>\<open>self.labels[start]\<close> first and \<^verbatim>\<open>self.values[start]\<close> second; an inner node is
  created with the defaults \<^verbatim>\<open>label=""\<close> and \<^verbatim>\<open>is_selected=False\<close>, then receives its
  children, the larger of their values, and \<^verbatim>\<open>right.branch or left.branch\<close>.
\<close>

fun build_tree ::
  "int list \<Rightarrow> string list \<Rightarrow> int \<Rightarrow> int \<Rightarrow> nat \<Rightarrow> int \<Rightarrow> int \<Rightarrow> error + TreeNode" where
  "build_tree vs ls sel_idx br_idx 0 s e = Inl RecursionError"
| "build_tree vs ls sel_idx br_idx (Suc depth) s e =
     (if s = e then
        (case getitem ls s of
           Inl x \<Rightarrow> Inl x
         | Inr lab \<Rightarrow>
             (case getitem vs s of
                Inl x \<Rightarrow> Inl x
              | Inr v \<Rightarrow> Inr (TreeNode s e lab v (sel_idx = s) (br_idx = s) None None None)))
      else
        let mid = (s + e) div 2 in
          (case build_tree vs ls sel_idx br_idx depth s mid of
             Inl x \<Rightarrow> Inl x
           | Inr lt \<Rightarrow>
               (case build_tree vs ls sel_idx br_idx depth (mid + 1) e of
                  Inl x \<Rightarrow> Inl x
                | Inr rt \<Rightarrow>
                    Inr (TreeNode s e ''''
                          (if value' lt > value' rt then value' lt else value' rt)
                          False (branch rt \<or> branch lt) (Some lt) (Some rt) None))))"

text \<open>
  \<^verbatim>\<open>SegmentTree.__init__(values, labels, selected_idx, branch_idx)\<close> stores its arguments
  and builds the root over \<^verbatim>\<open>[0, len(values) - 1]\<close>.
\<close>

definition SegmentTree_init ::
  "int list \<Rightarrow> string list \<Rightarrow> int \<Rightarrow> int \<Rightarrow> nat \<Rightarrow> error + SegmentTree" where
  "SegmentTree_init vs ls sel_idx br_idx depth =
     (case build_tree vs ls sel_idx br_idx depth 0 (int (length vs) - 1) of
        Inl x \<Rightarrow> Inl x
      | Inr t \<Rightarrow>
          Inr \<lparr>values' = vs, labels = ls, selected_idx = sel_idx, branch_idx = br_idx, root = t\<rparr>)"

text \<open>\<^verbatim>\<open>SegmentTree.update\<close> and \<^verbatim>\<open>SegmentTree.query\<close> call the root's methods at once.\<close>

definition SegmentTree_update :: "SegmentTree \<Rightarrow> int \<Rightarrow> int \<Rightarrow> SegmentTree \<times> error option" where
  "SegmentTree_update T idx new =
     (case update (root T) idx new of (t, raised) \<Rightarrow> (T\<lparr>root := t\<rparr>, raised))"

definition SegmentTree_query :: "SegmentTree \<Rightarrow> int \<Rightarrow> int \<Rightarrow> error + int" where
  "SegmentTree_query T qs qe = query (root T) qs qe"

text \<open>
  \<^verbatim>\<open>SegmentTree.inorder()\<close> starts the counter at \<open>0\<close> with an empty key list and returns
  the key list. \<^verbatim>\<open>self.root\<close> is the node that \<^verbatim>\<open>build_tree\<close> returned, so the test
  \<^verbatim>\<open>if self.root\<close> holds.
\<close>

definition SegmentTree_inorder :: "SegmentTree \<Rightarrow> SegmentTree \<times> string list" where
  "SegmentTree_inorder T =
     (case inorder (root T) 0 [] of (t, num, key_list) \<Rightarrow> (T\<lparr>root := t\<rparr>, key_list))"

text \<open>
  A sequence of \<^verbatim>\<open>update\<close> calls, each given as (index, value); an exception ends the
  sequence.
\<close>

fun SegmentTree_updates :: "SegmentTree \<Rightarrow> (int \<times> int) list \<Rightarrow> SegmentTree \<times> error option" where
  "SegmentTree_updates T [] = (T, None)"
| "SegmentTree_updates T ((idx, new) # us) =
     (case SegmentTree_update T idx new of
        (T1, None) \<Rightarrow> SegmentTree_updates T1 us
      | (T1, Some x) \<Rightarrow> (T1, Some x))"

section \<open>Notions used to state the properties\<close>

text \<open>
  The array a tree stands for is given as a function from indices to values. A node is
  well formed for \<open>f\<close> when a node with \<^verbatim>\<open>start == end\<close> has no children and holds
  \<open>f start\<close>, and any other node has \<^verbatim>\<open>start < end\<close>, two well-formed children over
  \<open>[start, mid]\<close> and \<open>[mid + 1, end]\<close>, and the larger of their values.
\<close>

fun wf :: "(int \<Rightarrow> int) \<Rightarrow> TreeNode \<Rightarrow> bool" where
  "wf f (TreeNode s e lab v sel br l r pos) =
     (if s = e then l = None \<and> r = None \<and> v = f s
      else s < e \<and>
        (case l of
           None \<Rightarrow> False
         | Some lt \<Rightarrow>
             (case r of
                None \<Rightarrow> False
              | Some rt \<Rightarrow>
                  wf f lt \<and> wf f rt \<and>
                  start lt = s \<and> end' lt = (s + e) div 2 \<and>
                  start rt = (s + e) div 2 + 1 \<and> end' rt = e \<and>
                  v = max (value' lt) (value' rt))))"

text \<open>
  The labels of a tree: a node with \<^verbatim>\<open>start == end\<close> carries the label \<open>g start\<close>, any
  other node the empty string.
\<close>

fun labelled :: "(int \<Rightarrow> string) \<Rightarrow> TreeNode \<Rightarrow> bool" where
  "labelled g (TreeNode s e lab v sel br l r pos) =
     (if s = e then lab = g s
      else lab = '''' \<and>
        (case l of None \<Rightarrow> True | Some lt \<Rightarrow> labelled g lt) \<and>
        (case r of None \<Rightarrow> True | Some rt \<Rightarrow> labelled g rt))"

text \<open>
  The invariant of the data model, stated on the shape of the tree: a node without
  children is a leaf and has \<^verbatim>\<open>start == end\<close>; a node with two children holds the
  maximum of their values, its left child covers \<open>[start, mid]\<close> and its right child
  \<open>[mid + 1, end]\<close>, with \<open>mid = (start + end) div 2\<close>; a node with one child only is
  not part of any tree.
\<close>

fun invariant :: "TreeNode \<Rightarrow> bool" where
  "invariant (TreeNode s e lab v sel br l r pos) =
     (case l of
        None \<Rightarrow> r = None \<and> s = e
      | Some lt \<Rightarrow>
          (case r of
             None \<Rightarrow> False
           | Some rt \<Rightarrow>
               v = max (value' lt) (value' rt) \<and>
               start lt = s \<and> end' lt = (s + e) div 2 \<and>
               start rt = (s + e) div 2 + 1 \<and> end' rt = e \<and>
               invariant lt \<and> invariant rt))"

text \<open>
  \<open>only_path_changed idx t t1\<close>: \<open>t1\<close> is \<open>t\<close> except for the values of the nodes on the
  path from the root to the leaf that covers \<open>idx\<close>. A node is on that path when its range
  holds \<open>idx\<close>; such a node keeps every field but \<^verbatim>\<open>value\<close>, and its children are compared
  in the same way. A node whose range does not hold \<open>idx\<close> is off the path, and it is the
  same in \<open>t\<close> and \<open>t1\<close> with all that is below it.
\<close>

fun only_path_changed :: "int \<Rightarrow> TreeNode \<Rightarrow> TreeNode \<Rightarrow> bool" where
  "only_path_changed idx (TreeNode s e lab v sel br l r pos) t1 =
     (if s \<le> idx \<and> idx \<le> e then
        start t1 = s \<and> end' t1 = e \<and> label t1 = lab \<and> is_selected t1 = sel \<and>
        branch t1 = br \<and> inorder_pos t1 = pos \<and>
        (case l of
           None \<Rightarrow> left t1 = None
         | Some lt \<Rightarrow>
             (case left t1 of None \<Rightarrow> False | Some lt1 \<Rightarrow> only_path_changed idx lt lt1)) \<and>
        (case r of
           None \<Rightarrow> right t1 = None
         | Some rt \<Rightarrow>
             (case right t1 of None \<Rightarrow> False | Some rt1 \<Rightarrow> only_path_changed idx rt rt1))
      else t1 = TreeNode s e lab v sel br l r pos)"

text \<open>The tree without the positions that a traversal has assigned.\<close>

fun clear_pos :: "TreeNode \<Rightarrow> TreeNode" where
  "clear_pos (TreeNode s e lab v sel br l r pos) =
     TreeNode s e lab v sel br (map_option clear_pos l) (map_option clear_pos r) None"

text \<open>
  \<^verbatim>\<open>max(A[s..e])\<close>, the maximum of the elements of \<open>A\<close> at the indices \<open>s\<close> to \<open>e\<close>,
  both included (Python's \<^verbatim>\<open>max(A[s:e+1])\<close> for \<open>0 \<le> s \<le> e < len(A)\<close>).
\<close>

definition range_max :: "int list \<Rightarrow> int \<Rightarrow> int \<Rightarrow> int" where
  "range_max A s e = Max (set (take (nat (e - s + 1)) (drop (nat s) A)))"

text \<open>The labels with an empty string between each two neighbours.\<close>

fun spaced :: "string list \<Rightarrow> string list" where
  "spaced [] = []"
| "spaced [x] = [x]"
| "spaced (x # y # zs) = x # '''' # spaced (y # zs)"

section \<open>Well-formed trees: query, update and construction\<close>

lemma wf_start_le_end: "wf f t \<Longrightarrow> start t \<le> end' t"
  by (cases t) (auto split: if_splits)

lemma wf_value: "wf f t \<Longrightarrow> value' t = Max (f ` {start t..end' t})"
proof (induction f t rule: wf.induct)
  case (1 f s e lab v sel br l r pos)
  show ?case
  proof (cases "s = e")
    case True
    with 1(3) show ?thesis by simp
  next
    case False
    with 1(3) obtain lt rt where lr: "l = Some lt" "r = Some rt"
      by (auto split: option.splits)
    let ?m = "(s + e) div 2"
    from 1(3) False lr have w: "wf f lt" "wf f rt" "start lt = s" "end' lt = ?m"
      "start rt = ?m + 1" "end' rt = e" "v = max (value' lt) (value' rt)" "s < e"
      by auto
    have il: "value' lt = Max (f ` {s..?m})"
      using 1(1)[OF False lr(1) lr(2) w(1)] w by simp
    have ir: "value' rt = Max (f ` {?m + 1..e})"
      using 1(2)[OF False lr(1) lr(2) w(2)] w by simp
    have sm: "s \<le> ?m" "?m < e" using w(8) by linarith+
    have un: "{s..e} = {s..?m} \<union> {?m + 1..e}" using sm by auto
    have "Max (f ` {s..e}) = max (Max (f ` {s..?m})) (Max (f ` {?m + 1..e}))"
      unfolding un image_Un using sm by (subst Max_Un) auto
    with il ir w(7) show ?thesis by simp
  qed
qed

lemma Max_image_split:
  fixes f :: "int \<Rightarrow> int"
  assumes "a \<le> m" "m < b"
  shows "Max (f ` {a..b}) = max (Max (f ` {a..m})) (Max (f ` {m + 1..b}))"
proof -
  have un: "{a..b} = {a..m} \<union> {m + 1..b}" using assms by auto
  show ?thesis unfolding un image_Un using assms by (subst Max_Un) auto
qed

lemma wf_inner:
  assumes "wf f (TreeNode s e lab v sel br l r pos)" "s \<noteq> e"
  obtains lt rt where "l = Some lt" "r = Some rt" "wf f lt" "wf f rt" "s < e"
    "start lt = s" "end' lt = (s + e) div 2" "start rt = (s + e) div 2 + 1" "end' rt = e"
    "v = max (value' lt) (value' rt)"
  using assms by (auto split: option.splits)

lemma query_wf:
  "wf f t \<Longrightarrow> start t \<le> qs \<Longrightarrow> qs \<le> qe \<Longrightarrow> qe \<le> end' t \<Longrightarrow>
   query t qs qe = Inr (Max (f ` {qs..qe}))"
proof (induction f t arbitrary: qs qe rule: wf.induct)
  case (1 f s e lab v sel br l r pos)
  let ?t = "TreeNode s e lab v sel br l r pos"
  have b: "s \<le> qs" "qs \<le> qe" "qe \<le> e" using 1(4-6) by simp_all
  show ?case
  proof (cases "s = e")
    case True
    with b have "qs = s" "qe = e" by simp_all
    moreover have "v = f s" using 1(3) True by simp
    ultimately show ?thesis using True by simp
  next
    case False
    from 1(3) False obtain lt rt where lr: "l = Some lt" "r = Some rt"
      and w: "wf f lt" "wf f rt" "s < e" "start lt = s" "end' lt = (s + e) div 2"
        "start rt = (s + e) div 2 + 1" "end' rt = e" "v = max (value' lt) (value' rt)"
      by (rule wf_inner)
    let ?m = "(s + e) div 2"
    have sm: "s \<le> ?m" "?m < e" using w(3) by linarith+
    note IHl = 1(1)[OF False lr w(1)]
    note IHr = 1(2)[OF False lr w(2)]
    show ?thesis
    proof (cases "s = qs \<and> e = qe")
      case True
      have "value' ?t = Max (f ` {start ?t..end' ?t})" using 1(3) by (rule wf_value)
      with True show ?thesis by simp
    next
      case nm: False
      show ?thesis
      proof (cases "qe \<le> ?m")
        case True
        have "query lt qs qe = Inr (Max (f ` {qs..qe}))"
          using IHl[of qs qe] b True w by simp
        with nm True lr show ?thesis by (auto simp: Let_def)
      next
        case nle: False
        show ?thesis
        proof (cases "qs > ?m")
          case True
          have "query rt qs qe = Inr (Max (f ` {qs..qe}))"
            using IHr[of qs qe] b True w by simp
          with nm nle True lr show ?thesis by (auto simp: Let_def)
        next
          case False
          have ql: "query lt qs ?m = Inr (Max (f ` {qs..?m}))"
            using IHl[of qs ?m] b False w by simp
          have qr: "query rt (?m + 1) qe = Inr (Max (f ` {?m + 1..qe}))"
            using IHr[of "?m + 1" qe] b nle w by simp
          have "Max (f ` {qs..qe}) = max (Max (f ` {qs..?m})) (Max (f ` {?m + 1..qe}))"
            using False nle by (intro Max_image_split) auto
          with nm nle False lr ql qr show ?thesis by (auto simp: Let_def)
        qed
      qed
    qed
  qed
qed

lemma wf_cong:
  "wf f t \<Longrightarrow> (\<And>i. start t \<le> i \<Longrightarrow> i \<le> end' t \<Longrightarrow> g i = f i) \<Longrightarrow> wf g t"
proof (induction f t rule: wf.induct)
  case (1 f s e lab v sel br l r pos)
  have eq: "\<And>i. s \<le> i \<Longrightarrow> i \<le> e \<Longrightarrow> g i = f i" using 1(4) by simp
  show ?case
  proof (cases "s = e")
    case True
    with 1(3) eq[of s] show ?thesis by simp
  next
    case False
    from 1(3) False obtain lt rt where lr: "l = Some lt" "r = Some rt"
      and w: "wf f lt" "wf f rt" "s < e" "start lt = s" "end' lt = (s + e) div 2"
        "start rt = (s + e) div 2 + 1" "end' rt = e" "v = max (value' lt) (value' rt)"
      by (rule wf_inner)
    let ?m = "(s + e) div 2"
    have sm: "s \<le> ?m" "?m < e" using w(3) by linarith+
    have "wf g lt" using 1(1)[OF False lr w(1)] eq w sm by simp
    moreover have "wf g rt" using 1(2)[OF False lr w(2)] eq w sm by simp
    ultimately show ?thesis using False lr w by simp
  qed
qed

lemma update_wf_gen:
  "wf f t \<Longrightarrow> start t \<le> idx \<Longrightarrow> idx \<le> end' t \<Longrightarrow>
   g idx = new \<Longrightarrow> (\<And>i. i \<noteq> idx \<Longrightarrow> g i = f i) \<Longrightarrow>
   \<exists>t1. update t idx new = (t1, None) \<and> wf g t1 \<and>
        start t1 = start t \<and> end' t1 = end' t"
proof (induction f t rule: wf.induct)
  case (1 f s e lab v sel br l r pos)
  have b: "s \<le> idx" "idx \<le> e" using 1(4,5) by simp_all
  note g = 1(6,7)
  show ?case
  proof (cases "s = e")
    case True
    with b have "idx = s" by simp
    with 1(3) True g(1) show ?thesis by simp
  next
    case False
    from 1(3) False obtain lt rt where lr: "l = Some lt" "r = Some rt"
      and w: "wf f lt" "wf f rt" "s < e" "start lt = s" "end' lt = (s + e) div 2"
        "start rt = (s + e) div 2 + 1" "end' rt = e" "v = max (value' lt) (value' rt)"
      by (rule wf_inner)
    let ?m = "(s + e) div 2"
    have sm: "s \<le> ?m" "?m < e" using w(3) by linarith+
    show ?thesis
    proof (cases "idx \<le> ?m")
      case True
      have "\<exists>t1. update lt idx new = (t1, None) \<and> wf g t1 \<and>
              start t1 = start lt \<and> end' t1 = end' lt"
        using 1(1)[OF False lr w(1) _ _ g] b True w by simp
      then obtain lt1 where
        u: "update lt idx new = (lt1, None)" "wf g lt1" "start lt1 = start lt" "end' lt1 = end' lt"
        by blast
      have "wf g rt" using w(2) by (rule wf_cong) (use True w g in auto)
      with u False True lr w show ?thesis by (simp add: Let_def max_def)
    next
      case nle: False
      have "\<exists>t1. update rt idx new = (t1, None) \<and> wf g t1 \<and>
              start t1 = start rt \<and> end' t1 = end' rt"
        using 1(2)[OF False lr w(2) _ _ g] b nle w by simp
      then obtain rt1 where
        u: "update rt idx new = (rt1, None)" "wf g rt1" "start rt1 = start rt" "end' rt1 = end' rt"
        by blast
      have "wf g lt" using w(1) by (rule wf_cong) (use nle w g in auto)
      with u False nle lr w show ?thesis by (simp add: Let_def max_def)
    qed
  qed
qed

lemma update_wf:
  "wf f t \<Longrightarrow> start t \<le> idx \<Longrightarrow> idx \<le> end' t \<Longrightarrow>
   \<exists>t1. update t idx new = (t1, None) \<and> wf (f(idx := new)) t1 \<and>
        start t1 = start t \<and> end' t1 = end' t"
  by (rule update_wf_gen) simp_all

lemma half_left: "s < e \<Longrightarrow> e - s + 1 \<le> 2 * k \<Longrightarrow> (s + e) div 2 - s + 1 \<le> (k::int)"
  by linarith

lemma half_right: "s < e \<Longrightarrow> e - s + 1 \<le> 2 * k \<Longrightarrow> e - ((s + e) div 2 + 1) + 1 \<le> (k::int)"
  by linarith

lemma getitem_in: "0 \<le> i \<Longrightarrow> i < int (length xs) \<Longrightarrow> getitem xs i = Inr (xs ! nat i)"
  by (simp add: getitem_def)

lemma getitem_beyond: "int (length xs) \<le> i \<Longrightarrow> getitem xs i = Inl IndexError"
  by (simp add: getitem_def)

lemma build_tree_wf:
  "0 \<le> s \<Longrightarrow> s \<le> e \<Longrightarrow> e < int (length vs) \<Longrightarrow> e < int (length ls) \<Longrightarrow>
   e - s + 1 \<le> 2 ^ d \<Longrightarrow>
   \<exists>t. build_tree vs ls si bi (Suc d) s e = Inr t \<and> wf (\<lambda>i. vs ! nat i) t \<and>
       labelled (\<lambda>i. ls ! nat i) t \<and> start t = s \<and> end' t = e"
proof (induction d arbitrary: s e)
  case 0
  then have "s = e" by simp
  with 0 show ?case by (simp add: getitem_in)
next
  case (Suc d)
  show ?case
  proof (cases "s = e")
    case True
    with Suc.prems show ?thesis by (simp add: getitem_in)
  next
    case False
    let ?m = "(s + e) div 2"
    have se: "s < e" using False Suc.prems by simp
    have sm: "s \<le> ?m" "?m < e" using se by linarith+
    have sz: "e - s + 1 \<le> 2 * 2 ^ d" using Suc.prems(5) by simp
    have "?m - s + 1 \<le> 2 ^ d" using se sz by (rule half_left)
    then obtain lt where lt: "build_tree vs ls si bi (Suc d) s ?m = Inr lt"
      "wf (\<lambda>i. vs ! nat i) lt" "labelled (\<lambda>i. ls ! nat i) lt" "start lt = s" "end' lt = ?m"
      using Suc.IH[of s ?m] Suc.prems sm by auto
    have "e - (?m + 1) + 1 \<le> 2 ^ d" using se sz by (rule half_right)
    then obtain rt where rt: "build_tree vs ls si bi (Suc d) (?m + 1) e = Inr rt"
      "wf (\<lambda>i. vs ! nat i) rt" "labelled (\<lambda>i. ls ! nat i) rt" "start rt = ?m + 1" "end' rt = e"
      using Suc.IH[of "?m + 1" e] Suc.prems sm by auto
    have "build_tree vs ls si bi (Suc (Suc d)) s e =
            Inr (TreeNode s e '''' (if value' lt > value' rt then value' lt else value' rt)
                   False (branch rt \<or> branch lt) (Some lt) (Some rt) None)"
      using False lt(1) rt(1)
      by (subst build_tree.simps(2)) (simp add: Let_def del: build_tree.simps(2))
    moreover have "wf (\<lambda>i. vs ! nat i)
        (TreeNode s e '''' (if value' lt > value' rt then value' lt else value' rt)
                   False (branch rt \<or> branch lt) (Some lt) (Some rt) None)"
      using False se lt rt by (simp add: max_def)
    moreover have "labelled (\<lambda>i. ls ! nat i)
        (TreeNode s e '''' (if value' lt > value' rt then value' lt else value' rt)
                   False (branch rt \<or> branch lt) (Some lt) (Some rt) None)"
      using False lt rt by simp
    ultimately show ?thesis by simp
  qed
qed

lemma build_tree_reversed:
  "e < s \<Longrightarrow> build_tree vs ls si bi d s e = Inl RecursionError"
proof (induction d arbitrary: e)
  case 0
  show ?case by simp
next
  case (Suc d)
  have "(s + e) div 2 < s" using Suc.prems by linarith
  then have "build_tree vs ls si bi d s ((s + e) div 2) = Inl RecursionError"
    by (rule Suc.IH)
  with Suc.prems show ?case by (simp add: Let_def)
qed

lemma build_tree_short_labels:
  "0 \<le> s \<Longrightarrow> s \<le> e \<Longrightarrow> e < int (length vs) \<Longrightarrow> int (length ls) \<le> e \<Longrightarrow>
   e - s + 1 \<le> 2 ^ d \<Longrightarrow> build_tree vs ls si bi (Suc d) s e = Inl IndexError"
proof (induction d arbitrary: s e)
  case 0
  then have "s = e" by simp
  with 0 show ?case by (simp add: getitem_beyond)
next
  case (Suc d)
  show ?case
  proof (cases "s = e")
    case True
    with Suc.prems show ?thesis by (simp add: getitem_beyond)
  next
    case False
    let ?m = "(s + e) div 2"
    have se: "s < e" using False Suc.prems by simp
    have sm: "s \<le> ?m" "?m < e" using se by linarith+
    have sz: "e - s + 1 \<le> 2 * 2 ^ d" using Suc.prems(5) by simp
    have szl: "?m - s + 1 \<le> 2 ^ d" using se sz by (rule half_left)
    have szr: "e - (?m + 1) + 1 \<le> 2 ^ d" using se sz by (rule half_right)
    have r: "build_tree vs ls si bi (Suc d) (?m + 1) e = Inl IndexError"
      using Suc.IH[of "?m + 1" e] Suc.prems sm szr by simp
    show ?thesis
    proof (cases "?m < int (length ls)")
      case True
      obtain lt where "build_tree vs ls si bi (Suc d) s ?m = Inr lt"
        using build_tree_wf[of s ?m vs ls d si bi] Suc.prems sm szl True by auto
      with r False show ?thesis
        by (subst build_tree.simps(2)) (simp add: Let_def del: build_tree.simps(2))
    next
      case nl: False
      have "build_tree vs ls si bi (Suc d) s ?m = Inl IndexError"
        using Suc.IH[of s ?m] Suc.prems sm szl nl by simp
      with False show ?thesis
        by (subst build_tree.simps(2)) (simp add: Let_def del: build_tree.simps(2))
    qed
  qed
qed

lemma update_below: "wf f t \<Longrightarrow> idx \<le> start t \<Longrightarrow> update t idx new = update t (start t) new"
proof (induction f t rule: wf.induct)
  case (1 f s e lab v sel br l r pos)
  show ?case
  proof (cases "s = e")
    case True
    then show ?thesis by simp
  next
    case False
    from 1(3) False obtain lt rt where lr: "l = Some lt" "r = Some rt"
      and w: "wf f lt" "wf f rt" "s < e" "start lt = s" "end' lt = (s + e) div 2"
        "start rt = (s + e) div 2 + 1" "end' rt = e" "v = max (value' lt) (value' rt)"
      by (rule wf_inner)
    have sm: "s \<le> (s + e) div 2" using w(3) by linarith
    have "update lt idx new = update lt s new"
      using 1(1)[OF False lr w(1)] 1(4) w(4) by simp
    with False lr sm 1(4) show ?thesis by (simp add: Let_def)
  qed
qed

lemma update_above: "wf f t \<Longrightarrow> end' t \<le> idx \<Longrightarrow> update t idx new = update t (end' t) new"
proof (induction f t rule: wf.induct)
  case (1 f s e lab v sel br l r pos)
  show ?case
  proof (cases "s = e")
    case True
    then show ?thesis by simp
  next
    case False
    from 1(3) False obtain lt rt where lr: "l = Some lt" "r = Some rt"
      and w: "wf f lt" "wf f rt" "s < e" "start lt = s" "end' lt = (s + e) div 2"
        "start rt = (s + e) div 2 + 1" "end' rt = e" "v = max (value' lt) (value' rt)"
      by (rule wf_inner)
    have sm: "(s + e) div 2 < e" using w(3) by linarith
    have "update rt idx new = update rt e new"
      using 1(2)[OF False lr w(2)] 1(4) w(7) by simp
    with False lr sm 1(4) show ?thesis by (simp add: Let_def)
  qed
qed

lemma query_reversed: "wf f t \<Longrightarrow> qe < qs \<Longrightarrow> query t qs qe = Inl AttributeError"
proof (induction f t arbitrary: qs qe rule: wf.induct)
  case (1 f s e lab v sel br l r pos)
  show ?case
  proof (cases "s = e")
    case True
    with 1(3,4) show ?thesis by (auto simp: Let_def)
  next
    case False
    from 1(3) False obtain lt rt where lr: "l = Some lt" "r = Some rt"
      and w: "wf f lt" "wf f rt" "s < e" "start lt = s" "end' lt = (s + e) div 2"
        "start rt = (s + e) div 2 + 1" "end' rt = e" "v = max (value' lt) (value' rt)"
      by (rule wf_inner)
    have "query lt qs qe = Inl AttributeError" using 1(1)[OF False lr w(1) 1(4)] .
    moreover have "query rt qs qe = Inl AttributeError" using 1(2)[OF False lr w(2) 1(4)] .
    ultimately show ?thesis using lr w(3) 1(4) by (auto simp: Let_def)
  qed
qed

lemma query_below: "wf f t \<Longrightarrow> qs < start t \<Longrightarrow> query t qs qe = Inl AttributeError"
proof (induction f t arbitrary: qs qe rule: wf.induct)
  case (1 f s e lab v sel br l r pos)
  have q: "qs < s" using 1(4) by simp
  show ?case
  proof (cases "s = e")
    case True
    with 1(3) q show ?thesis by (auto simp: Let_def)
  next
    case False
    from 1(3) False obtain lt rt where lr: "l = Some lt" "r = Some rt"
      and w: "wf f lt" "wf f rt" "s < e" "start lt = s" "end' lt = (s + e) div 2"
        "start rt = (s + e) div 2 + 1" "end' rt = e" "v = max (value' lt) (value' rt)"
      by (rule wf_inner)
    have sm: "s \<le> (s + e) div 2" using w(3) by linarith
    have "\<And>b. query lt qs b = Inl AttributeError"
      using 1(1)[OF False lr w(1)] q w(4) by simp
    then show ?thesis using lr q sm by (auto simp: Let_def)
  qed
qed

lemma inorder_again:
  "inorder (fst (inorder t num ks)) num ks = inorder t num ks \<and>
   clear_pos (fst (inorder t num ks)) = clear_pos t"
proof (induction t num ks rule: inorder.induct)
  case (1 s e lab v sel br l r pos num key_list)
  obtain l1 num1 keys1 where L:
    "(case l of None \<Rightarrow> (None, num, key_list)
      | Some lt \<Rightarrow> (case inorder lt num key_list of (lt1, n, ks) \<Rightarrow> (Some lt1, n, ks)))
     = (l1, num1, keys1)"
    by (metis prod_cases3)
  obtain r1 num3 keys3 where R:
    "(case r of None \<Rightarrow> (None, num1 + 1, keys1 @ [lab])
      | Some rt \<Rightarrow> (case inorder rt (num1 + 1) (keys1 @ [lab]) of
                     (rt1, n, ks) \<Rightarrow> (Some rt1, n, ks)))
     = (r1, num3, keys3)"
    by (metis prod_cases3)
  have res: "inorder (TreeNode s e lab v sel br l r pos) num key_list =
               (TreeNode s e lab v sel br l1 r1 (Some num1), num3, keys3)"
    using L R by (simp add: Let_def)
  have L1: "(case l1 of None \<Rightarrow> (None, num, key_list)
      | Some lt \<Rightarrow> (case inorder lt num key_list of (lt1, n, ks) \<Rightarrow> (Some lt1, n, ks)))
     = (l1, num1, keys1) \<and> map_option clear_pos l1 = map_option clear_pos l"
  proof (cases l)
    case None
    with L show ?thesis by auto
  next
    case (Some lt)
    obtain a b c where i: "inorder lt num key_list = (a, b, c)" by (metis prod_cases3)
    from 1(1)[OF Some] i have "inorder a num key_list = (a, b, c)" "clear_pos a = clear_pos lt"
      by simp_all
    with L Some i show ?thesis by auto
  qed
  have R1: "(case r1 of None \<Rightarrow> (None, num1 + 1, keys1 @ [lab])
      | Some rt \<Rightarrow> (case inorder rt (num1 + 1) (keys1 @ [lab]) of
                     (rt1, n, ks) \<Rightarrow> (Some rt1, n, ks)))
     = (r1, num3, keys3) \<and> map_option clear_pos r1 = map_option clear_pos r"
  proof (cases r)
    case None
    with R show ?thesis by auto
  next
    case (Some rt)
    obtain a b c where i: "inorder rt (num1 + 1) (keys1 @ [lab]) = (a, b, c)"
      by (metis prod_cases3)
    from 1(2)[OF refl L[symmetric] refl refl refl refl Some] i
    have "inorder a (num1 + 1) (keys1 @ [lab]) = (a, b, c)" "clear_pos a = clear_pos rt"
      by simp_all
    with R Some i show ?thesis by auto
  qed
  show ?case unfolding res using L1 R1 by (simp add: Let_def)
qed

section \<open>Construction\<close>

lemma image_nth_range:
  "0 \<le> s \<Longrightarrow> e < int (length A) \<Longrightarrow>
   (\<lambda>i. A ! nat i) ` {s..e} = set (take (nat (e - s + 1)) (drop (nat s) A))"
proof (intro set_eqI iffI)
  fix x assume "x \<in> (\<lambda>i. A ! nat i) ` {s..e}"
  then obtain i where i: "s \<le> i" "i \<le> e" "x = A ! nat i" by auto
  assume b: "0 \<le> s" "e < int (length A)"
  let ?xs = "take (nat (e - s + 1)) (drop (nat s) A)"
  have len: "length ?xs = nat (e - s + 1)" using b i by simp
  have "nat (i - s) < length ?xs" using len i by simp
  moreover have "?xs ! nat (i - s) = A ! nat i"
    using b i by (simp add: nat_diff_distrib' nat_le_iff nat_add_distrib)
  ultimately show "x \<in> set ?xs" using i(3) by (metis nth_mem)
next
  fix x
  let ?xs = "take (nat (e - s + 1)) (drop (nat s) A)"
  assume b: "0 \<le> s" "e < int (length A)" and "x \<in> set ?xs"
  then obtain k where k: "k < length ?xs" "x = ?xs ! k" by (metis in_set_conv_nth)
  have kl: "k < nat (e - s + 1)" using k(1) by simp
  then have "x = A ! (nat s + k)" using k b by simp
  moreover have "nat s + k = nat (s + int k)" using b by simp
  moreover have "s + int k \<in> {s..e}" using kl by auto
  ultimately show "x \<in> (\<lambda>i. A ! nat i) ` {s..e}" by (metis (mono_tags, lifting) image_eqI)
qed

lemma range_max_image:
  "0 \<le> s \<Longrightarrow> e < int (length A) \<Longrightarrow> Max ((\<lambda>i. A ! nat i) ` {s..e}) = range_max A s e"
  by (simp add: range_max_def image_nth_range)

lemma image_nth_all: "(\<lambda>i. A ! nat i) ` {0..int (length A) - 1} = set A"
  using image_nth_range[of 0 "int (length A) - 1" A] by simp

lemma init_wf:
  assumes "vs \<noteq> []" "length vs \<le> length ls" "int (length vs) \<le> 2 ^ d"
  shows "\<exists>T. SegmentTree_init vs ls si bi (Suc d) = Inr T \<and>
           wf (\<lambda>i. vs ! nat i) (root T) \<and> labelled (\<lambda>i. ls ! nat i) (root T) \<and>
           start (root T) = 0 \<and> end' (root T) = int (length vs) - 1"
proof -
  have "0 \<le> int (length vs) - 1" using assms(1) by (cases vs) simp_all
  moreover have "int (length vs) - 1 - 0 + 1 \<le> 2 ^ d" using assms(3) by simp
  ultimately obtain t where "build_tree vs ls si bi (Suc d) 0 (int (length vs) - 1) = Inr t"
    "wf (\<lambda>i. vs ! nat i) t" "labelled (\<lambda>i. ls ! nat i) t" "start t = 0"
    "end' t = int (length vs) - 1"
    using build_tree_wf[of 0 "int (length vs) - 1" vs ls d si bi] assms(2) by auto
  then show ?thesis by (simp add: SegmentTree_init_def)
qed

section \<open>Updates of the root\<close>

lemma wf_invariant: "wf f t \<Longrightarrow> invariant t"
proof (induction f t rule: wf.induct)
  case (1 f s e lab v sel br l r pos)
  show ?case
  proof (cases "s = e")
    case True
    with 1(3) show ?thesis by simp
  next
    case False
    from 1(3) False obtain lt rt where lr: "l = Some lt" "r = Some rt"
      and w: "wf f lt" "wf f rt" "s < e" "start lt = s" "end' lt = (s + e) div 2"
        "start rt = (s + e) div 2 + 1" "end' rt = e" "v = max (value' lt) (value' rt)"
      by (rule wf_inner)
    have "invariant lt" using 1(1)[OF False lr w(1)] .
    moreover have "invariant rt" using 1(2)[OF False lr w(2)] .
    ultimately show ?thesis using lr w by simp
  qed
qed

lemma update_root_wf:
  assumes "wf f (root T)" "start (root T) = 0" "end' (root T) = n - 1" "0 \<le> idx" "idx < n"
  shows "\<exists>T1. SegmentTree_update T idx new = (T1, None) \<and> wf (f(idx := new)) (root T1) \<and>
           start (root T1) = 0 \<and> end' (root T1) = n - 1"
proof -
  from update_wf[OF assms(1), of idx new] assms obtain t1 where
    "update (root T) idx new = (t1, None)" "wf (f(idx := new)) t1"
    "start t1 = 0" "end' t1 = n - 1"
    by auto
  then show ?thesis by (simp add: SegmentTree_update_def)
qed

lemma updates_root_wf:
  "wf f (root T) \<Longrightarrow> start (root T) = 0 \<Longrightarrow> end' (root T) = n - 1 \<Longrightarrow>
   (\<And>idx new. (idx, new) \<in> set us \<Longrightarrow> 0 \<le> idx \<and> idx < n) \<Longrightarrow>
   \<exists>T1 g. SegmentTree_updates T us = (T1, None) \<and> wf g (root T1) \<and>
          start (root T1) = 0 \<and> end' (root T1) = n - 1"
proof (induction us arbitrary: T f)
  case Nil
  then show ?case by auto
next
  case (Cons u us)
  obtain idx new where u: "u = (idx, new)" by (cases u)
  have b: "0 \<le> idx" "idx < n" using Cons.prems(4)[of idx new] u by simp_all
  from update_root_wf[OF Cons.prems(1-3) b, of new] obtain T1 where
    T1: "SegmentTree_update T idx new = (T1, None)" "wf (f(idx := new)) (root T1)"
      "start (root T1) = 0" "end' (root T1) = n - 1"
    by blast
  have "\<exists>T2 g. SegmentTree_updates T1 us = (T2, None) \<and> wf g (root T2) \<and>
          start (root T2) = 0 \<and> end' (root T2) = n - 1"
    using T1(2-4) by (rule Cons.IH) (use Cons.prems(4) in auto)
  with T1(1) u show ?case by simp
qed

lemma nth_list_update_int:
  "0 \<le> idx \<Longrightarrow> 0 \<le> i \<Longrightarrow> i < int (length A) \<Longrightarrow>
   (A[nat idx := new]) ! nat i = ((\<lambda>i. A ! nat i)(idx := new)) i"
  by (auto simp: nth_list_update)

section \<open>The path of an update\<close>

lemma off_path: "\<not> (start t \<le> idx \<and> idx \<le> end' t) \<Longrightarrow> only_path_changed idx t t"
  by (cases t) auto

lemma update_only_path:
  "wf f t \<Longrightarrow> start t \<le> idx \<Longrightarrow> idx \<le> end' t \<Longrightarrow>
   only_path_changed idx t (fst (update t idx new))"
proof (induction f t rule: wf.induct)
  case (1 f s e lab v sel br l r pos)
  have b: "s \<le> idx" "idx \<le> e" using 1(4,5) by simp_all
  show ?case
  proof (cases "s = e")
    case True
    with 1(3) b show ?thesis by simp
  next
    case False
    from 1(3) False obtain lt rt where lr: "l = Some lt" "r = Some rt"
      and w: "wf f lt" "wf f rt" "s < e" "start lt = s" "end' lt = (s + e) div 2"
        "start rt = (s + e) div 2 + 1" "end' rt = e" "v = max (value' lt) (value' rt)"
      by (rule wf_inner)
    let ?m = "(s + e) div 2"
    show ?thesis
    proof (cases "idx \<le> ?m")
      case True
      have "only_path_changed idx lt (fst (update lt idx new))"
        using 1(1)[OF False lr w(1)] b True w by simp
      moreover have "only_path_changed idx rt rt"
        by (rule off_path) (use True w in simp)
      moreover from update_wf[OF w(1), of idx new] b True w
      have "snd (update lt idx new) = None" by auto
      ultimately show ?thesis using False True lr b
        by (auto simp: Let_def split: prod.splits if_splits)
    next
      case nle: False
      have "only_path_changed idx rt (fst (update rt idx new))"
        using 1(2)[OF False lr w(2)] b nle w by simp
      moreover have "only_path_changed idx lt lt"
        by (rule off_path) (use nle w in simp)
      moreover from update_wf[OF w(2), of idx new] b nle w
      have "snd (update rt idx new) = None" by auto
      ultimately show ?thesis using False nle lr b
        by (auto simp: Let_def split: prod.splits if_splits)
    qed
  qed
qed

section \<open>The keys of a traversal\<close>

lemma spaced_append:
  "xs \<noteq> [] \<Longrightarrow> ys \<noteq> [] \<Longrightarrow> spaced (xs @ ys) = spaced xs @ '''' # spaced ys"
proof (induction xs rule: spaced.induct)
  case 1
  then show ?case by simp
next
  case (2 x)
  then show ?case by (cases ys) simp_all
next
  case (3 x y zs)
  then show ?case by simp
qed

lemma length_spaced: "length (spaced xs) = 2 * length xs - 1"
  by (induction xs rule: spaced.induct) simp_all

lemma spaced_even: "i < length xs \<Longrightarrow> spaced xs ! (2 * i) = xs ! i"
proof (induction xs arbitrary: i rule: spaced.induct)
  case 1
  then show ?case by simp
next
  case (2 x)
  then show ?case by simp
next
  case (3 x y zs)
  show ?case
  proof (cases i)
    case 0
    then show ?thesis by simp
  next
    case (Suc j)
    with 3 show ?thesis by simp
  qed
qed

lemma spaced_odd: "Suc i < length xs \<Longrightarrow> spaced xs ! Suc (2 * i) = ''''"
proof (induction xs arbitrary: i rule: spaced.induct)
  case 1
  then show ?case by simp
next
  case (2 x)
  then show ?case by simp
next
  case (3 x y zs)
  show ?case
  proof (cases i)
    case 0
    then show ?thesis by simp
  next
    case (Suc j)
    with 3 show ?thesis by simp
  qed
qed

lemma filter_spaced: "filter (\<lambda>k. k \<noteq> '''') (spaced xs) = filter (\<lambda>k. k \<noteq> '''') xs"
  by (induction xs rule: spaced.induct) simp_all

lemma map_nth_upto: "map (\<lambda>i. ls ! nat i) [0..int (length ls) - 1] = ls"
  by (rule nth_equalityI) simp_all

lemma inorder_keys:
  "wf f t \<Longrightarrow> labelled g t \<Longrightarrow>
   snd (snd (inorder t num ks)) = ks @ spaced (map g [start t..end' t])"
proof (induction f t arbitrary: num ks rule: wf.induct)
  case (1 f s e lab v sel br l r pos)
  show ?case
  proof (cases "s = e")
    case True
    with 1(3,4) show ?thesis by (simp add: Let_def)
  next
    case False
    from 1(3) False obtain lt rt where lr: "l = Some lt" "r = Some rt"
      and w: "wf f lt" "wf f rt" "s < e" "start lt = s" "end' lt = (s + e) div 2"
        "start rt = (s + e) div 2 + 1" "end' rt = e" "v = max (value' lt) (value' rt)"
      by (rule wf_inner)
    let ?m = "(s + e) div 2"
    have sm: "s \<le> ?m" "?m < e" using w(3) by linarith+
    have lab: "lab = ''''" "labelled g lt" "labelled g rt" using 1(4) False lr by simp_all
    obtain lt1 n1 k1 where il: "inorder lt num ks = (lt1, n1, k1)" by (metis prod_cases3)
    obtain rt1 n3 k3 where ir: "inorder rt (n1 + 1) (k1 @ [lab]) = (rt1, n3, k3)"
      by (metis prod_cases3)
    have k1: "k1 = ks @ spaced (map g [s..?m])"
      using 1(1)[OF False lr w(1) lab(2), of num ks] il w by simp
    have k3: "k3 = (k1 @ [lab]) @ spaced (map g [?m + 1..e])"
      using 1(2)[OF False lr w(2) lab(3), of "n1 + 1" "k1 @ [lab]"] ir w by simp
    have "[s..e] = [s..?m] @ [?m + 1..e]" using sm by (intro upto_split2) simp_all
    then have "spaced (map g [s..e]) = spaced (map g [s..?m]) @ '''' # spaced (map g [?m + 1..e])"
      using sm by (simp add: spaced_append)
    with k1 k3 lab(1) il ir lr show ?thesis by (simp add: Let_def)
  qed
qed

section \<open>The properties\<close>

text \<open>
  In the theorems below, \<open>Suc d\<close> is the number of nested calls of \<^verbatim>\<open>build_tree\<close> that
  the interpreter allows, and \<open>int (length vs) \<le> 2 ^ d\<close> says that this is enough for the
  list: a tree over \<open>n\<close> leaves is \<open>\<lceil>log\<^sub>2 n\<rceil> + 1\<close> nodes deep. Python's default limit of
  1000 calls is enough for every list that fits in memory.
\<close>

text \<open>
  C1. For every non-empty list of integers \<open>vs\<close> and every list of labels of the same
  length, the construction returns a tree, and the query of the whole range
  \<open>[0, len(vs) - 1]\<close> on that tree returns the maximum of \<open>vs\<close>.
\<close>

theorem build_then_query_all:
  assumes "vs \<noteq> []" "length ls = length vs" "int (length vs) \<le> 2 ^ d"
  shows "\<exists>T. SegmentTree_init vs ls si bi (Suc d) = Inr T \<and>
           SegmentTree_query T 0 (int (length vs) - 1) = Inr (Max (set vs))"
proof -
  from init_wf[of vs ls d si bi] assms obtain T where
    T: "SegmentTree_init vs ls si bi (Suc d) = Inr T" "wf (\<lambda>i. vs ! nat i) (root T)"
      "start (root T) = 0" "end' (root T) = int (length vs) - 1"
    by auto
  have "0 \<le> int (length vs) - 1" using assms(1) by (cases vs) simp_all
  then have "query (root T) 0 (int (length vs) - 1) =
          Inr (Max ((\<lambda>i. vs ! nat i) ` {0..int (length vs) - 1}))"
    using T by (intro query_wf) simp_all
  with T(1) show ?thesis by (simp add: SegmentTree_query_def image_nth_all)
qed

theorem build_then_query_all_witness:
  "(case SegmentTree_init [3, 9, 4] [''a'', ''b'', ''c''] (- 1) (- 1) 3 of
      Inl x \<Rightarrow> False
    | Inr T \<Rightarrow> SegmentTree_query T 0 2 = Inr 9)"
  using build_then_query_all[of "[3, 9, 4]" "[''a'', ''b'', ''c'']" 2 "- 1" "- 1"]
  by (auto simp: numeral_3_eq_3)

text \<open>
  C2. For the tree built from \<open>vs\<close>, every index \<open>idx\<close> in \<open>[0, len(vs) - 1]\<close> and every
  integer \<open>new\<close>: \<^verbatim>\<open>update(idx, new)\<close> returns without an exception; after it,
  \<^verbatim>\<open>query(idx, idx)\<close> returns \<open>new\<close>, and for every range \<open>[s, e]\<close> within the bounds that
  contains \<open>idx\<close>, \<^verbatim>\<open>query(s, e)\<close> returns the maximum of \<open>vs[s..e]\<close> with the element at
  \<open>idx\<close> replaced by \<open>new\<close>.
\<close>

theorem update_then_query:
  assumes "vs \<noteq> []" "length ls = length vs" "int (length vs) \<le> 2 ^ d"
    and "0 \<le> idx" "idx < int (length vs)"
  shows "\<exists>T T1. SegmentTree_init vs ls si bi (Suc d) = Inr T \<and>
           SegmentTree_update T idx new = (T1, None) \<and>
           SegmentTree_query T1 idx idx = Inr new \<and>
           (\<forall>s e. 0 \<le> s \<and> s \<le> idx \<and> idx \<le> e \<and> e < int (length vs) \<longrightarrow>
              SegmentTree_query T1 s e = Inr (range_max (vs[nat idx := new]) s e))"
proof -
  let ?n = "int (length vs)"
  let ?A = "vs[nat idx := new]"
  from init_wf[of vs ls d si bi] assms obtain T where
    T: "SegmentTree_init vs ls si bi (Suc d) = Inr T" "wf (\<lambda>i. vs ! nat i) (root T)"
      "start (root T) = 0" "end' (root T) = ?n - 1"
    by auto
  from update_root_wf[OF T(2-4) assms(4,5), of new] obtain T1 where
    T1: "SegmentTree_update T idx new = (T1, None)"
      "wf ((\<lambda>i. vs ! nat i)(idx := new)) (root T1)"
      "start (root T1) = 0" "end' (root T1) = ?n - 1"
    by blast
  have w: "wf (\<lambda>i. ?A ! nat i) (root T1)"
    using T1(2) by (rule wf_cong) (use T1(3,4) assms(4) in \<open>simp add: nth_list_update_int\<close>)
  have q: "SegmentTree_query T1 s e = Inr (range_max ?A s e)"
    if "0 \<le> s" "s \<le> e" "e < ?n" for s e
  proof -
    have "query (root T1) s e = Inr (Max ((\<lambda>i. ?A ! nat i) ` {s..e}))"
      using w by (rule query_wf) (use that T1(3,4) in simp_all)
    moreover have "Max ((\<lambda>i. ?A ! nat i) ` {s..e}) = range_max ?A s e"
      using that by (intro range_max_image) simp_all
    ultimately show ?thesis by (simp add: SegmentTree_query_def)
  qed
  have "query (root T1) idx idx = Inr (Max ((\<lambda>i. ?A ! nat i) ` {idx..idx}))"
    using w by (rule query_wf) (use assms(4,5) T1(3,4) in simp_all)
  then have "SegmentTree_query T1 idx idx = Inr new"
    using assms(4,5) by (simp add: SegmentTree_query_def)
  with T(1) T1(1) q show ?thesis by auto
qed

theorem update_then_query_witness:
  "(case SegmentTree_init [3, 9, 4] [''a'', ''b'', ''c''] (- 1) (- 1) 3 of
      Inl x \<Rightarrow> False
    | Inr T \<Rightarrow>
        (case SegmentTree_update T 1 2 of
           (T1, raised) \<Rightarrow>
             raised = None \<and> SegmentTree_query T1 1 1 = Inr 2 \<and>
             SegmentTree_query T1 0 2 = Inr 4 \<and> SegmentTree_query T1 1 2 = Inr 4 \<and>
             SegmentTree_query T1 0 1 = Inr 3))"
proof -
  have r: "range_max ([3, 9, 4][nat 1 := 2]) 0 2 = 4" "range_max ([3, 9, 4][nat 1 := 2]) 1 2 = 4"
    "range_max ([3, 9, 4][nat 1 := 2]) 0 1 = 3"
    by (simp_all add: range_max_def)
  from update_then_query[of "[3, 9, 4]" "[''a'', ''b'', ''c'']" 2 1 "- 1" "- 1" 2]
  obtain T T1 where
    a: "SegmentTree_init [3, 9, 4] [''a'', ''b'', ''c''] (- 1) (- 1) (Suc 2) = Inr T"
      "SegmentTree_update T 1 2 = (T1, None)" "SegmentTree_query T1 1 1 = Inr 2"
    and q: "\<And>s e. 0 \<le> s \<and> s \<le> 1 \<and> 1 \<le> e \<and> e < 3 \<Longrightarrow>
           SegmentTree_query T1 s e = Inr (range_max ([3, 9, 4][nat 1 := 2]) s e)"
    by auto
  from q[of 0 2] q[of 1 2] q[of 0 1] r a show ?thesis by (simp add: numeral_3_eq_3)
qed

text \<open>
  C3. The tree that the construction returns satisfies the invariant, and so does the tree
  after every sequence of \<^verbatim>\<open>update\<close> calls with indices in \<open>[0, len(vs) - 1]\<close> (none of
  which raises): every node with children holds the maximum of its children's values, its
  left child covers \<open>[start, mid]\<close> and its right child \<open>[mid + 1, end]\<close>, and every leaf has
  \<^verbatim>\<open>start == end\<close>.
\<close>

theorem invariant_kept:
  assumes "vs \<noteq> []" "length ls = length vs" "int (length vs) \<le> 2 ^ d"
    and "\<forall>(idx, new) \<in> set us. 0 \<le> idx \<and> idx < int (length vs)"
  shows "\<exists>T T1. SegmentTree_init vs ls si bi (Suc d) = Inr T \<and> invariant (root T) \<and>
           SegmentTree_updates T us = (T1, None) \<and> invariant (root T1)"
proof -
  from init_wf[of vs ls d si bi] assms obtain T where
    T: "SegmentTree_init vs ls si bi (Suc d) = Inr T" "wf (\<lambda>i. vs ! nat i) (root T)"
      "start (root T) = 0" "end' (root T) = int (length vs) - 1"
    by auto
  from updates_root_wf[OF T(2-4), of us] assms(4) obtain T1 g where
    "SegmentTree_updates T us = (T1, None)" "wf g (root T1)"
    by blast
  with T(1,2) show ?thesis by (auto dest: wf_invariant)
qed

theorem invariant_kept_witness:
  "(case SegmentTree_init [3, 9, 4] [''a'', ''b'', ''c''] (- 1) (- 1) 3 of
      Inl x \<Rightarrow> False
    | Inr T \<Rightarrow>
        invariant (root T) \<and>
        (case SegmentTree_updates T [(1, 2), (0, 7)] of
           (T1, raised) \<Rightarrow> raised = None \<and> invariant (root T1)))"
  using invariant_kept[of "[3, 9, 4]" "[''a'', ''b'', ''c'']" 2 "[(1, 2), (0, 7)]" "- 1" "- 1"]
  by (auto simp: numeral_3_eq_3)

text \<open>
  C7. For the tree built from \<open>vs\<close>, also after any sequence of \<^verbatim>\<open>update\<close> calls with indices
  within the bounds, every range \<open>[s, e]\<close> within \<open>[0, len(vs) - 1]\<close> and every split point
  \<open>m\<close> with \<open>s \<le> m < e\<close>: the three queries return, and
  \<^verbatim>\<open>query(s, e) == max(query(s, m), query(m + 1, e))\<close>.
\<close>

theorem query_split:
  assumes "vs \<noteq> []" "length ls = length vs" "int (length vs) \<le> 2 ^ d"
    and "\<forall>(idx, new) \<in> set us. 0 \<le> idx \<and> idx < int (length vs)"
    and "0 \<le> s" "s \<le> m" "m < e" "e < int (length vs)"
  shows "\<exists>T T1 a b c. SegmentTree_init vs ls si bi (Suc d) = Inr T \<and>
           SegmentTree_updates T us = (T1, None) \<and>
           SegmentTree_query T1 s e = Inr a \<and> SegmentTree_query T1 s m = Inr b \<and>
           SegmentTree_query T1 (m + 1) e = Inr c \<and> a = max b c"
proof -
  from init_wf[of vs ls d si bi] assms obtain T where
    T: "SegmentTree_init vs ls si bi (Suc d) = Inr T" "wf (\<lambda>i. vs ! nat i) (root T)"
      "start (root T) = 0" "end' (root T) = int (length vs) - 1"
    by auto
  from updates_root_wf[OF T(2-4), of us] assms(4) obtain T1 g where
    T1: "SegmentTree_updates T us = (T1, None)" "wf g (root T1)"
      "start (root T1) = 0" "end' (root T1) = int (length vs) - 1"
    by blast
  have "query (root T1) s e = Inr (Max (g ` {s..e}))"
    using T1(2) by (rule query_wf) (use assms(5-8) T1(3,4) in simp_all)
  moreover have "query (root T1) s m = Inr (Max (g ` {s..m}))"
    using T1(2) by (rule query_wf) (use assms(5-8) T1(3,4) in simp_all)
  moreover have "query (root T1) (m + 1) e = Inr (Max (g ` {m + 1..e}))"
    using T1(2) by (rule query_wf) (use assms(5-8) T1(3,4) in simp_all)
  moreover have "Max (g ` {s..e}) = max (Max (g ` {s..m})) (Max (g ` {m + 1..e}))"
    using assms(6,7) by (rule Max_image_split)
  ultimately show ?thesis using T(1) T1(1) by (simp add: SegmentTree_query_def)
qed

theorem query_split_witness:
  "(case SegmentTree_init [3, 9, 4] [''a'', ''b'', ''c''] (- 1) (- 1) 3 of
      Inl x \<Rightarrow> False
    | Inr T \<Rightarrow>
        (case SegmentTree_updates T [(1, 2)] of
           (T1, raised) \<Rightarrow>
             raised = None \<and>
             (\<exists>a b c. SegmentTree_query T1 0 2 = Inr a \<and> SegmentTree_query T1 0 0 = Inr b \<and>
                SegmentTree_query T1 1 2 = Inr c \<and> a = max b c)))"
  using query_split[of "[3, 9, 4]" "[''a'', ''b'', ''c'']" 2 "[(1, 2)]" 0 0 2 "- 1" "- 1"]
  by (auto simp: numeral_3_eq_3)

text \<open>
  C9. On valid input the three recursive operations return. \<^verbatim>\<open>build_tree\<close> on a non-empty
  list returns a tree within \<open>Suc d\<close> nested calls as soon as \<open>len(vs) \<le> 2 ^ d\<close>, so it does
  not recurse without end. \<^verbatim>\<open>update\<close> and \<^verbatim>\<open>query\<close> recurse on the children of a node,
  which is why they are total functions of the model; on the built tree, with an index in
  \<open>[0, len(vs) - 1]\<close> and a range \<open>0 \<le> s \<le> e \<le> len(vs) - 1\<close>, they return normally, the
  query with a value.
\<close>

theorem operations_return:
  assumes "vs \<noteq> []" "length ls = length vs" "int (length vs) \<le> 2 ^ d"
  shows "\<exists>T. SegmentTree_init vs ls si bi (Suc d) = Inr T \<and>
           (\<forall>idx new. 0 \<le> idx \<and> idx < int (length vs) \<longrightarrow>
              snd (SegmentTree_update T idx new) = None) \<and>
           (\<forall>s e. 0 \<le> s \<and> s \<le> e \<and> e < int (length vs) \<longrightarrow>
              (\<exists>m. SegmentTree_query T s e = Inr m))"
proof -
  from init_wf[of vs ls d si bi] assms obtain T where
    T: "SegmentTree_init vs ls si bi (Suc d) = Inr T" "wf (\<lambda>i. vs ! nat i) (root T)"
      "start (root T) = 0" "end' (root T) = int (length vs) - 1"
    by auto
  have "snd (SegmentTree_update T idx new) = None"
    if "0 \<le> idx" "idx < int (length vs)" for idx new
    using update_root_wf[OF T(2-4) that, of new] by auto
  moreover have "\<exists>m. SegmentTree_query T s e = Inr m"
    if "0 \<le> s" "s \<le> e" "e < int (length vs)" for s e
    using query_wf[OF T(2), of s e] that T(3,4) by (simp add: SegmentTree_query_def)
  ultimately show ?thesis using T(1) by auto
qed

theorem operations_return_witness:
  "(case SegmentTree_init [3, 9, 4] [''a'', ''b'', ''c''] (- 1) (- 1) 3 of
      Inl x \<Rightarrow> False
    | Inr T \<Rightarrow>
        snd (SegmentTree_update T 2 5) = None \<and> (\<exists>m. SegmentTree_query T 1 2 = Inr m))"
proof -
  from operations_return[of "[3, 9, 4]" "[''a'', ''b'', ''c'']" 2 "- 1" "- 1"]
  obtain T where
    a: "SegmentTree_init [3, 9, 4] [''a'', ''b'', ''c''] (- 1) (- 1) (Suc 2) = Inr T"
    and u: "\<And>idx new. 0 \<le> idx \<and> idx < 3 \<Longrightarrow> snd (SegmentTree_update T idx new) = None"
    and q: "\<And>s e. 0 \<le> s \<and> s \<le> e \<and> e < 3 \<Longrightarrow> \<exists>m. SegmentTree_query T s e = Inr m"
    by auto
  from a u[of 2 5] q[of 1 2] show ?thesis by (simp add: numeral_3_eq_3)
qed

text \<open>
  C4. For the tree built from \<open>vs\<close>, also after any sequence of \<^verbatim>\<open>update\<close> calls with indices
  within the bounds, and every index \<open>idx\<close> in \<open>[0, len(vs) - 1]\<close>: \<^verbatim>\<open>update(idx, new)\<close>
  returns normally and changes nothing but the values of the nodes on the path from the
  root to the leaf that covers \<open>idx\<close>; every node off that path, and every other field, is
  as before. In the scenario \<^verbatim>\<open>values = [30,100,70,40,20,90,10,50,80,60]\<close>,
  \<^verbatim>\<open>query(6, 9)\<close> returns \<open>80\<close> before and after \<^verbatim>\<open>update(5, 200)\<close>, and \<^verbatim>\<open>query(0, 5)\<close>
  returns \<open>200\<close> after it.
\<close>

theorem update_frame:
  assumes "vs \<noteq> []" "length ls = length vs" "int (length vs) \<le> 2 ^ d"
    and "\<forall>(i, x) \<in> set us. 0 \<le> i \<and> i < int (length vs)"
    and "0 \<le> idx" "idx < int (length vs)"
  shows "(\<exists>T0 T T1. SegmentTree_init vs ls si bi (Suc d) = Inr T0 \<and>
            SegmentTree_updates T0 us = (T, None) \<and>
            SegmentTree_update T idx new = (T1, None) \<and>
            only_path_changed idx (root T) (root T1) \<and>
            values' T1 = values' T \<and> labels T1 = labels T \<and>
            selected_idx T1 = selected_idx T \<and> branch_idx T1 = branch_idx T) \<and>
         (case SegmentTree_init [30, 100, 70, 40, 20, 90, 10, 50, 80, 60]
                 [''a'', ''b'', ''c'', ''d'', ''e'', ''f'', ''g'', ''h'', ''i'', ''j'']
                 (- 1) (- 1) 1000 of
            Inl x \<Rightarrow> False
          | Inr S \<Rightarrow>
              SegmentTree_query S 6 9 = Inr 80 \<and>
              (case SegmentTree_update S 5 200 of
                 (S1, raised) \<Rightarrow>
                   raised = None \<and> SegmentTree_query S1 0 5 = Inr 200 \<and>
                   SegmentTree_query S1 6 9 = Inr 80))"
proof
  from init_wf[of vs ls d si bi] assms obtain T0 where
    T0: "SegmentTree_init vs ls si bi (Suc d) = Inr T0" "wf (\<lambda>i. vs ! nat i) (root T0)"
      "start (root T0) = 0" "end' (root T0) = int (length vs) - 1"
    by auto
  from updates_root_wf[OF T0(2-4), of us] assms(4) obtain T g where
    T: "SegmentTree_updates T0 us = (T, None)" "wf g (root T)"
      "start (root T) = 0" "end' (root T) = int (length vs) - 1"
    by blast
  from update_root_wf[OF T(2-4) assms(5,6), of new] obtain T1 where
    T1: "SegmentTree_update T idx new = (T1, None)"
    by blast
  have "only_path_changed idx (root T) (fst (update (root T) idx new))"
    using T(2) by (rule update_only_path) (use T(3,4) assms(5,6) in simp_all)
  with T1 have "only_path_changed idx (root T) (root T1)"
    by (auto simp: SegmentTree_update_def split: prod.splits)
  moreover have "values' T1 = values' T" "labels T1 = labels T"
    "selected_idx T1 = selected_idx T" "branch_idx T1 = branch_idx T"
    using T1 by (auto simp: SegmentTree_update_def split: prod.splits)
  ultimately show "\<exists>T0 T T1. SegmentTree_init vs ls si bi (Suc d) = Inr T0 \<and>
            SegmentTree_updates T0 us = (T, None) \<and>
            SegmentTree_update T idx new = (T1, None) \<and>
            only_path_changed idx (root T) (root T1) \<and>
            values' T1 = values' T \<and> labels T1 = labels T \<and>
            selected_idx T1 = selected_idx T \<and> branch_idx T1 = branch_idx T"
    using T0(1) T(1) T1 by blast
next
  show "case SegmentTree_init [30, 100, 70, 40, 20, 90, 10, 50, 80, 60]
                 [''a'', ''b'', ''c'', ''d'', ''e'', ''f'', ''g'', ''h'', ''i'', ''j'']
                 (- 1) (- 1) 1000 of
            Inl x \<Rightarrow> False
          | Inr S \<Rightarrow>
              SegmentTree_query S 6 9 = Inr 80 \<and>
              (case SegmentTree_update S 5 200 of
                 (S1, raised) \<Rightarrow>
                   raised = None \<and> SegmentTree_query S1 0 5 = Inr 200 \<and>
                   SegmentTree_query S1 6 9 = Inr 80)"
    by (simp add: SegmentTree_init_def SegmentTree_query_def SegmentTree_update_def
        numeral_eq_Suc getitem_def Let_def)
qed

theorem update_frame_witness:
  "(case SegmentTree_init [3, 9, 4] [''a'', ''b'', ''c''] (- 1) (- 1) 3 of
      Inl x \<Rightarrow> False
    | Inr T \<Rightarrow>
        (case SegmentTree_update T 2 7 of
           (T1, raised) \<Rightarrow>
             raised = None \<and> only_path_changed 2 (root T) (root T1) \<and>
             left (root T1) = left (root T) \<and>
             left (root T) =
               Some (TreeNode 0 1 '''' 9 False False
                 (Some (TreeNode 0 0 ''a'' 3 False False None None None))
                 (Some (TreeNode 1 1 ''b'' 9 False False None None None)) None)))"
proof -
  have b: "SegmentTree_init [3, 9, 4] [''a'', ''b'', ''c''] (- 1) (- 1) 3 =
      Inr \<lparr>values' = [3, 9, 4], labels = [''a'', ''b'', ''c''], selected_idx = - 1,
           branch_idx = - 1,
           root = TreeNode 0 2 '''' 9 False False
             (Some (TreeNode 0 1 '''' 9 False False
                 (Some (TreeNode 0 0 ''a'' 3 False False None None None))
                 (Some (TreeNode 1 1 ''b'' 9 False False None None None)) None))
             (Some (TreeNode 2 2 ''c'' 4 False False None None None)) None\<rparr>"
    by (simp add: SegmentTree_init_def numeral_eq_Suc getitem_def Let_def)
  from update_frame[of "[3, 9, 4]" "[''a'', ''b'', ''c'']" 2 "[]" 2 "- 1" "- 1" 7]
  obtain T0 T T1 where
    "SegmentTree_init [3, 9, 4] [''a'', ''b'', ''c''] (- 1) (- 1) (Suc 2) = Inr T0"
    "SegmentTree_updates T0 [] = (T, None)"
    "SegmentTree_update T 2 7 = (T1, None)" "only_path_changed 2 (root T) (root T1)"
    by auto
  then show ?thesis using b
    by (auto simp: numeral_3_eq_3 SegmentTree_update_def Let_def)
qed

text \<open>
  C8. For every tree, a second traversal right after a first one returns the same list of
  labels and leaves the tree as the first traversal left it, so every node has the same
  position as before; and a traversal changes nothing but the positions: every
  \<^verbatim>\<open>value\<close>, and every other field, is as it was.
\<close>

theorem traversal_idempotent:
  "(case SegmentTree_inorder T of
      (T1, keys1) \<Rightarrow>
        (case SegmentTree_inorder T1 of
           (T2, keys2) \<Rightarrow>
             keys2 = keys1 \<and> T2 = T1 \<and> clear_pos (root T1) = clear_pos (root T) \<and>
             values' T1 = values' T \<and> labels T1 = labels T))"
proof -
  obtain t1 n k where i: "inorder (root T) 0 [] = (t1, n, k)" by (metis prod_cases3)
  from inorder_again[of "root T" 0 "[]"] i
  have "inorder t1 0 [] = (t1, n, k)" "clear_pos t1 = clear_pos (root T)" by simp_all
  with i show ?thesis by (simp add: SegmentTree_inorder_def)
qed

theorem traversal_idempotent_witness:
  "(case SegmentTree_init [3, 9] [''a'', ''b''] (- 1) (- 1) 1000 of
      Inl x \<Rightarrow> False
    | Inr T \<Rightarrow>
        (case SegmentTree_inorder T of
           (T1, keys1) \<Rightarrow>
             keys1 = [''a'', '''', ''b''] \<and>
             root T1 =
               TreeNode 0 1 '''' 9 False False
                 (Some (TreeNode 0 0 ''a'' 3 False False None None (Some 0)))
                 (Some (TreeNode 1 1 ''b'' 9 False False None None (Some 2))) (Some 1) \<and>
             (case SegmentTree_inorder T1 of
                (T2, keys2) \<Rightarrow>
                  keys2 = keys1 \<and> T2 = T1 \<and> clear_pos (root T1) = clear_pos (root T))))"
proof -
  have b: "SegmentTree_init [3, 9] [''a'', ''b''] (- 1) (- 1) 1000 =
      Inr \<lparr>values' = [3, 9], labels = [''a'', ''b''], selected_idx = - 1, branch_idx = - 1,
           root = TreeNode 0 1 '''' 9 False False
                 (Some (TreeNode 0 0 ''a'' 3 False False None None None))
                 (Some (TreeNode 1 1 ''b'' 9 False False None None None)) None\<rparr>"
    by (simp add: SegmentTree_init_def numeral_eq_Suc getitem_def Let_def)
  show ?thesis
    using traversal_idempotent[of "\<lparr>values' = [3, 9], labels = [''a'', ''b''],
           selected_idx = - 1, branch_idx = - 1,
           root = TreeNode 0 1 '''' 9 False False
                 (Some (TreeNode 0 0 ''a'' 3 False False None None None))
                 (Some (TreeNode 1 1 ''b'' 9 False False None None None)) None\<rparr>"]
    unfolding b by (simp add: SegmentTree_inorder_def Let_def split: prod.splits)
qed

text \<open>
  C10, as amended. For the tree built from \<open>n\<close> values and \<open>n\<close> labels, the traversal returns
  \<open>2 * n - 1\<close> entries: the input labels with an empty string between each two neighbours.
  So the entry at position \<open>2 * i\<close> is the label of leaf \<open>i\<close>, the entries at the odd
  positions are the empty strings of the inner nodes, and when no input label is the empty
  string, the non-empty entries are exactly the input labels in the order of the leaves.
\<close>

theorem traversal_keys:
  assumes "vs \<noteq> []" "length ls = length vs" "int (length vs) \<le> 2 ^ d"
  shows "\<exists>T keys. SegmentTree_init vs ls si bi (Suc d) = Inr T \<and>
           snd (SegmentTree_inorder T) = keys \<and> keys = spaced ls \<and>
           length keys = 2 * length vs - 1 \<and>
           (\<forall>i. i < length vs \<longrightarrow> keys ! (2 * i) = ls ! i) \<and>
           (\<forall>i. Suc i < length vs \<longrightarrow> keys ! (2 * i + 1) = '''') \<and>
           ((\<forall>l \<in> set ls. l \<noteq> '''') \<longrightarrow> filter (\<lambda>k. k \<noteq> '''') keys = ls)"
proof -
  from init_wf[of vs ls d si bi] assms obtain T where
    T: "SegmentTree_init vs ls si bi (Suc d) = Inr T" "wf (\<lambda>i. vs ! nat i) (root T)"
      "labelled (\<lambda>i. ls ! nat i) (root T)"
      "start (root T) = 0" "end' (root T) = int (length vs) - 1"
    by auto
  have "snd (snd (inorder (root T) 0 [])) = [] @ spaced (map (\<lambda>i. ls ! nat i)
          [start (root T)..end' (root T)])"
    using T(2,3) by (rule inorder_keys)
  then have k: "snd (SegmentTree_inorder T) = spaced ls"
    using T(4,5) assms(2) map_nth_upto[of ls]
    by (auto simp: SegmentTree_inorder_def split: prod.splits)
  have "filter (\<lambda>k. k \<noteq> '''') (spaced ls) = ls" if "\<forall>l \<in> set ls. l \<noteq> ''''"
    using that by (simp add: filter_spaced)
  then show ?thesis
    using T(1) k assms(2) by (simp add: length_spaced spaced_even spaced_odd)
qed

theorem traversal_keys_witness:
  "(case SegmentTree_init [3, 9, 4] [''a'', ''b'', ''c''] (- 1) (- 1) 3 of
      Inl x \<Rightarrow> False
    | Inr T \<Rightarrow>
        snd (SegmentTree_inorder T) = [''a'', '''', ''b'', '''', ''c''] \<and>
        filter (\<lambda>k. k \<noteq> '''') (snd (SegmentTree_inorder T)) = [''a'', ''b'', ''c''])"
  using traversal_keys[of "[3, 9, 4]" "[''a'', ''b'', ''c'']" 2 "- 1" "- 1"]
  by (auto simp: numeral_3_eq_3)

text \<open>
  C10 as stated fails when an input label is the empty string: with the labels
  \<^verbatim>\<open>["", "b"]\<close> the traversal returns \<^verbatim>\<open>["", "", "b"]\<close>, whose non-empty entries are
  \<^verbatim>\<open>["b"]\<close> and not the two input labels.
\<close>

theorem traversal_empty_label:
  "(case SegmentTree_init [5, 6] ['''', ''b''] (- 1) (- 1) 1000 of
      Inl x \<Rightarrow> False
    | Inr T \<Rightarrow>
        snd (SegmentTree_inorder T) = ['''', '''', ''b''] \<and>
        filter (\<lambda>k. k \<noteq> '''') (snd (SegmentTree_inorder T)) = [''b''] \<and>
        filter (\<lambda>k. k \<noteq> '''') (snd (SegmentTree_inorder T)) \<noteq> labels T)"
  by (simp add: SegmentTree_init_def SegmentTree_inorder_def numeral_eq_Suc getitem_def Let_def)

text \<open>
  C5, as amended. \<^verbatim>\<open>SegmentTree.update\<close> and \<^verbatim>\<open>SegmentTree.query\<close> check no bounds. For
  every tree of size \<open>n\<close> (built from \<open>vs\<close>, also after updates within the bounds):
  \<^verbatim>\<open>update(-1, x)\<close> and \<^verbatim>\<open>update(n, x)\<close> return normally and do what \<^verbatim>\<open>update(0, x)\<close> and
  \<^verbatim>\<open>update(n - 1, x)\<close> do, so the first and the last leaf hold \<open>x\<close> afterwards;
  \<^verbatim>\<open>query(2, 1)\<close> and \<^verbatim>\<open>query(-1, n)\<close> raise \<^verbatim>\<open>AttributeError\<close>, at a leaf whose missing
  child is called. A query assigns no field, so the tree is unchanged when it fails.
\<close>

theorem no_bounds_check:
  assumes "vs \<noteq> []" "length ls = length vs" "int (length vs) \<le> 2 ^ d"
    and "\<forall>(i, y) \<in> set us. 0 \<le> i \<and> i < int (length vs)"
  shows "\<exists>T0 T. SegmentTree_init vs ls si bi (Suc d) = Inr T0 \<and>
           SegmentTree_updates T0 us = (T, None) \<and>
           SegmentTree_update T (- 1) x = SegmentTree_update T 0 x \<and>
           SegmentTree_update T (int (length vs)) x =
             SegmentTree_update T (int (length vs) - 1) x \<and>
           snd (SegmentTree_update T (- 1) x) = None \<and>
           snd (SegmentTree_update T (int (length vs)) x) = None \<and>
           SegmentTree_query (fst (SegmentTree_update T (- 1) x)) 0 0 = Inr x \<and>
           SegmentTree_query (fst (SegmentTree_update T (int (length vs)) x))
             (int (length vs) - 1) (int (length vs) - 1) = Inr x \<and>
           SegmentTree_query T 2 1 = Inl AttributeError \<and>
           SegmentTree_query T (- 1) (int (length vs)) = Inl AttributeError"
proof -
  let ?n = "int (length vs)"
  have n: "0 < ?n" using assms(1) by simp
  from init_wf[of vs ls d si bi] assms obtain T0 where
    T0: "SegmentTree_init vs ls si bi (Suc d) = Inr T0" "wf (\<lambda>i. vs ! nat i) (root T0)"
      "start (root T0) = 0" "end' (root T0) = ?n - 1"
    by auto
  from updates_root_wf[OF T0(2-4), of us] assms(4) obtain T g where
    T: "SegmentTree_updates T0 us = (T, None)" "wf g (root T)"
      "start (root T) = 0" "end' (root T) = ?n - 1"
    by blast
  have lo: "SegmentTree_update T (- 1) x = SegmentTree_update T 0 x"
    using update_below[OF T(2), of "- 1" x] T(3) by (simp add: SegmentTree_update_def)
  have hi: "SegmentTree_update T ?n x = SegmentTree_update T (?n - 1) x"
    using update_above[OF T(2), of ?n x] T(4) by (simp add: SegmentTree_update_def)
  from update_root_wf[OF T(2-4), of 0 x] n obtain A where
    A: "SegmentTree_update T 0 x = (A, None)" "wf (g(0 := x)) (root A)"
      "start (root A) = 0" "end' (root A) = ?n - 1"
    by auto
  from update_root_wf[OF T(2-4), of "?n - 1" x] n obtain B where
    B: "SegmentTree_update T (?n - 1) x = (B, None)" "wf (g(?n - 1 := x)) (root B)"
      "start (root B) = 0" "end' (root B) = ?n - 1"
    by auto
  have "query (root A) 0 0 = Inr (Max ((g(0 := x)) ` {0..0}))"
    using A(2) by (rule query_wf) (use A(3,4) n in simp_all)
  then have qa: "SegmentTree_query A 0 0 = Inr x" by (simp add: SegmentTree_query_def)
  have "query (root B) (?n - 1) (?n - 1) = Inr (Max ((g(?n - 1 := x)) ` {?n - 1..?n - 1}))"
    using B(2) by (rule query_wf) (use B(3,4) n in simp_all)
  then have qb: "SegmentTree_query B (?n - 1) (?n - 1) = Inr x"
    by (simp add: SegmentTree_query_def)
  have q1: "SegmentTree_query T 2 1 = Inl AttributeError"
    using query_reversed[OF T(2), of 1 2] by (simp add: SegmentTree_query_def)
  have q2: "SegmentTree_query T (- 1) ?n = Inl AttributeError"
    using query_below[OF T(2), of "- 1" ?n] T(3) by (simp add: SegmentTree_query_def)
  show ?thesis using T0(1) T(1) lo hi A(1) B(1) qa qb q1 q2 by simp
qed

theorem no_bounds_check_witness:
  "(case SegmentTree_init [3, 9, 4] [''a'', ''b'', ''c''] (- 1) (- 1) 3 of
      Inl e \<Rightarrow> False
    | Inr T \<Rightarrow>
        SegmentTree_update T (- 1) 7 = SegmentTree_update T 0 7 \<and>
        SegmentTree_update T 3 7 = SegmentTree_update T 2 7 \<and>
        snd (SegmentTree_update T (- 1) 7) = None \<and>
        snd (SegmentTree_update T 3 7) = None \<and>
        SegmentTree_query (fst (SegmentTree_update T (- 1) 7)) 0 0 = Inr 7 \<and>
        SegmentTree_query (fst (SegmentTree_update T 3 7)) 2 2 = Inr 7 \<and>
        SegmentTree_query T 2 1 = Inl AttributeError \<and>
        SegmentTree_query T (- 1) 3 = Inl AttributeError)"
  using no_bounds_check[of "[3, 9, 4]" "[''a'', ''b'', ''c'']" 2 "[]" "- 1" "- 1" 7]
  by (auto simp: numeral_3_eq_3)

text \<open>
  C5 as stated fails: on the tree built from \<^verbatim>\<open>[3, 9, 4]\<close>, \<^verbatim>\<open>update(-1, 7)\<close> and
  \<^verbatim>\<open>update(3, 7)\<close> raise nothing and change the tree (leaf 0, and leaf 2, hold \<open>7\<close>
  afterwards), and the two queries end with \<^verbatim>\<open>AttributeError\<close>; the source has no
  \<^verbatim>\<open>IndexOutOfRange\<close> or \<^verbatim>\<open>InvalidRange\<close> error.
\<close>

theorem bounds_not_rejected:
  "(case SegmentTree_init [3, 9, 4] [''a'', ''b'', ''c''] (- 1) (- 1) 1000 of
      Inl e \<Rightarrow> False
    | Inr T \<Rightarrow>
        SegmentTree_query T 0 0 = Inr 3 \<and>
        snd (SegmentTree_update T (- 1) 7) = None \<and>
        fst (SegmentTree_update T (- 1) 7) \<noteq> T \<and>
        SegmentTree_query (fst (SegmentTree_update T (- 1) 7)) 0 0 = Inr 7 \<and>
        SegmentTree_query T 2 2 = Inr 4 \<and>
        snd (SegmentTree_update T 3 7) = None \<and>
        fst (SegmentTree_update T 3 7) \<noteq> T \<and>
        SegmentTree_query (fst (SegmentTree_update T 3 7)) 2 2 = Inr 7 \<and>
        SegmentTree_query T 2 1 = Inl AttributeError \<and>
        SegmentTree_query T (- 1) 3 = Inl AttributeError)"
  by (simp add: SegmentTree_init_def SegmentTree_query_def SegmentTree_update_def
      numeral_eq_Suc getitem_def Let_def)

text \<open>
  C6, as amended. \<^verbatim>\<open>SegmentTree.__init__\<close> checks neither the length of \<^verbatim>\<open>values\<close> nor that
  of \<^verbatim>\<open>labels\<close>. On an empty \<^verbatim>\<open>values\<close> the call \<^verbatim>\<open>build_tree(0, -1)\<close> recurses with the
  same arguments until the interpreter raises \<^verbatim>\<open>RecursionError\<close>, whatever the limit. On
  a non-empty \<^verbatim>\<open>values\<close> (and a sufficient recursion limit) the construction raises
  \<^verbatim>\<open>IndexError\<close> when there are fewer labels than values, and otherwise returns a tree
  over \<open>[0, len(values) - 1]\<close>: with \<open>len(values) == len(labels)\<close>, and also with more
  labels than values.
\<close>

theorem construction_unchecked:
  "SegmentTree_init [] ls si bi depth = Inl RecursionError \<and>
   (vs \<noteq> [] \<and> int (length vs) \<le> 2 ^ d \<longrightarrow>
      (if length ls < length vs
       then SegmentTree_init vs ls si bi (Suc d) = Inl IndexError
       else \<exists>T. SegmentTree_init vs ls si bi (Suc d) = Inr T \<and>
              values' T = vs \<and> labels T = ls \<and>
              start (root T) = 0 \<and> end' (root T) = int (length vs) - 1))"
proof (intro conjI impI)
  show "SegmentTree_init [] ls si bi depth = Inl RecursionError"
    by (simp add: SegmentTree_init_def build_tree_reversed)
next
  assume a: "vs \<noteq> [] \<and> int (length vs) \<le> 2 ^ d"
  then have n: "0 \<le> int (length vs) - 1" by (cases vs) simp_all
  show "if length ls < length vs
       then SegmentTree_init vs ls si bi (Suc d) = Inl IndexError
       else \<exists>T. SegmentTree_init vs ls si bi (Suc d) = Inr T \<and>
              values' T = vs \<and> labels T = ls \<and>
              start (root T) = 0 \<and> end' (root T) = int (length vs) - 1"
  proof (cases "length ls < length vs")
    case True
    have "build_tree vs ls si bi (Suc d) 0 (int (length vs) - 1) = Inl IndexError"
      using n True a by (intro build_tree_short_labels) simp_all
    with True show ?thesis by (simp add: SegmentTree_init_def)
  next
    case False
    obtain t where "build_tree vs ls si bi (Suc d) 0 (int (length vs) - 1) = Inr t"
      "start t = 0" "end' t = int (length vs) - 1"
      using build_tree_wf[of 0 "int (length vs) - 1" vs ls d si bi] n False a by auto
    with False show ?thesis by (simp add: SegmentTree_init_def)
  qed
qed

theorem construction_unchecked_witness:
  "SegmentTree_init [] [] (- 1) (- 1) 1000 = Inl RecursionError \<and>
   SegmentTree_init [5, 6] [''a''] (- 1) (- 1) 2 = Inl IndexError \<and>
   (\<exists>T. SegmentTree_init [5] [''a'', ''b''] (- 1) (- 1) 1 = Inr T \<and>
      values' T = [5] \<and> labels T = [''a'', ''b''] \<and>
      start (root T) = 0 \<and> end' (root T) = 0) \<and>
   (\<exists>T. SegmentTree_init [5, 6] [''a'', ''b''] (- 1) (- 1) 2 = Inr T \<and>
      values' T = [5, 6] \<and> labels T = [''a'', ''b''] \<and>
      start (root T) = 0 \<and> end' (root T) = 1)"
  using construction_unchecked[of "[]" "- 1" "- 1" 1000 "[5, 6]" 1]
    construction_unchecked[of "[''a'']" "- 1" "- 1" 0 "[5, 6]" 1]
    construction_unchecked[of "[''a'', ''b'']" "- 1" "- 1" 0 "[5]" 0]
    construction_unchecked[of "[''a'', ''b'']" "- 1" "- 1" 0 "[5, 6]" 1]
  by (simp add: numeral_2_eq_2)

text \<open>
  C6 as stated fails: with Python's default limit of 1000 nested calls, the construction
  from two empty lists ends with \<^verbatim>\<open>RecursionError\<close>, two values with one label end with
  \<^verbatim>\<open>IndexError\<close>, and one value with two labels gives a tree; the source has no
  \<^verbatim>\<open>EmptyInput\<close> or \<^verbatim>\<open>LengthMismatch\<close> error.
\<close>

theorem construction_not_rejected:
  "SegmentTree_init [] [] (- 1) (- 1) 1000 = Inl RecursionError \<and>
   SegmentTree_init [5, 6] [''a''] (- 1) (- 1) 1000 = Inl IndexError \<and>
   SegmentTree_init [5] [''a'', ''b''] (- 1) (- 1) 1000 =
     Inr \<lparr>values' = [5], labels = [''a'', ''b''], selected_idx = - 1, branch_idx = - 1,
          root = TreeNode 0 0 ''a'' 5 False False None None None\<rparr>"
  by (simp add: SegmentTree_init_def build_tree_reversed numeral_eq_Suc getitem_def Let_def)

end
